theory Spec2Isabelle
  imports Complex_Main "HOL-Library.Multiset"
begin

section \<open>The 311 loading loop (day1, Part 3)\<close>

text \<open>
  The cell that loads the tab-separated file:
  \<^verbatim>\<open>
  data = dict()
  with open(filename, 'r') as fp:
      for i, line in enumerate(fp.readlines()):
          line = line.strip().split('\t')
          if i == 0:
              header = line
              for key in header:
                  data.setdefault(key, list())
          else:
              for key, value in zip(header, line):
                  data[key].append(value)
  \<close>
  The input of the model is the list that \<open>fp.readlines()\<close> returns. A character is
  its code point, in the 8-bit range of \<^typ>\<open>char\<close>. The dictionary is a map from
  column names to lists of values; \<open>data[key]\<close> on a missing key raises KeyError,
  and reading \<open>header\<close> before the first line has bound it raises NameError.
\<close>

datatype py_error = KeyError | NameError

definition isspace :: "char \<Rightarrow> bool" where
  "isspace c \<longleftrightarrow> c \<in> set [CHR 0x09, CHR 0x0A, CHR 0x0B, CHR 0x0C, CHR 0x0D,
     CHR 0x1C, CHR 0x1D, CHR 0x1E, CHR 0x1F, CHR 0x20, CHR 0x85, CHR 0xA0]"

definition strip :: "string \<Rightarrow> string" where
  "strip s = rev (dropWhile isspace (rev (dropWhile isspace s)))"

text \<open>\<open>s.split(sep)\<close> with a one-character separator: one field more than there are
  separators, so the empty string has the one field \<open>''\<close>.\<close>

fun split :: "char \<Rightarrow> string \<Rightarrow> string list" where
  "split sep [] = [[]]"
| "split sep (c # cs) =
     (if c = sep then [] # split sep cs
      else (let r = split sep cs in (c # hd r) # tl r))"

definition line_fields :: "string \<Rightarrow> string list" where
  "line_fields line = split (CHR 0x09) (strip line)"

type_synonym table = "string \<rightharpoonup> string list"

record loader =
  header :: "string list option"
  data :: table

definition setdefault :: "string \<Rightarrow> string list \<Rightarrow> table \<Rightarrow> table" where
  "setdefault key v d = (case d key of None \<Rightarrow> d(key \<mapsto> v) | Some _ \<Rightarrow> d)"

text \<open>\<open>data[key].append(value)\<close>\<close>

definition append_value :: "string \<Rightarrow> string \<Rightarrow> table \<Rightarrow> py_error + table" where
  "append_value key v d =
     (case d key of None \<Rightarrow> Inl KeyError | Some col \<Rightarrow> Inr (d(key \<mapsto> col @ [v])))"

text \<open>The inner loop over \<open>zip(header, line)\<close>.\<close>

fun append_row :: "(string \<times> string) list \<Rightarrow> table \<Rightarrow> py_error + table" where
  "append_row [] d = Inr d"
| "append_row ((key, v) # kvs) d =
     (case append_value key v d of Inl e \<Rightarrow> Inl e | Inr d' \<Rightarrow> append_row kvs d')"

text \<open>The body of the outer loop, for line number \<open>i\<close>.\<close>

definition loop_body :: "nat \<Rightarrow> string \<Rightarrow> loader \<Rightarrow> py_error + loader" where
  "loop_body i line st =
     (let line' = line_fields line in
      if i = 0 then
        Inr \<lparr>header = Some line', data = fold (\<lambda>key d. setdefault key [] d) line' (data st)\<rparr>
      else
        (case header st of
           None \<Rightarrow> Inl NameError
         | Some h \<Rightarrow>
            (case append_row (zip h line') (data st) of
               Inl e \<Rightarrow> Inl e
             | Inr d' \<Rightarrow> Inr (st\<lparr>data := d'\<rparr>))))"

fun run_loop :: "(nat \<times> string) list \<Rightarrow> loader \<Rightarrow> py_error + loader" where
  "run_loop [] st = Inr st"
| "run_loop ((i, line) # rest) st =
     (case loop_body i line st of Inl e \<Rightarrow> Inl e | Inr st' \<Rightarrow> run_loop rest st')"

definition load :: "string list \<Rightarrow> py_error + loader" where
  "load lines = run_loop (enumerate 0 lines) \<lparr>header = None, data = Map.empty\<rparr>"

section \<open>The normal-equations cell (linear regression notebook)\<close>

text \<open>
  The cells that build the design matrix and solve the normal equations:
  \<^verbatim>\<open>
  x = np.linspace(0.0, 10.0, 100)
  y = m * x + c
  X = np.concatenate([
    np.expand_dims(x, axis=-1),
    np.ones((x.shape[0], 1))], axis=-1)
  y = np.expand_dims(y, axis=-1)
  theta = np.matmul(np.linalg.inv(np.matmul(X.T, X)), np.matmul(X.T, y))
  \<close>
  The NumPy functions are library code. They are modelled here by what NumPy documents
  for them on one- and two-dimensional arrays, with the exceptions they raise as values.
  Numbers are the elements of a field: the arithmetic is exact, and the rounding of
  float64 is not part of the model. A one-dimensional array is a list; a two-dimensional
  array is its shape together with the list of its rows.
\<close>

datatype np_error = ValueError | LinAlgError

datatype 'a ndarray = NDArray (nrows: nat) (ncols: nat) (rows: "'a list list")

definition wf_array :: "'a ndarray \<Rightarrow> bool" where
  "wf_array A \<longleftrightarrow> length (rows A) = nrows A \<and> list_all (\<lambda>r. length r = ncols A) (rows A)"

definition entry :: "'a ndarray \<Rightarrow> nat \<Rightarrow> nat \<Rightarrow> 'a" where
  "entry A i j = rows A ! i ! j"

text \<open>The array of shape \<open>(n, m)\<close> whose entry \<open>(i, j)\<close> is \<open>f i j\<close>.\<close>

definition tabulate :: "nat \<Rightarrow> nat \<Rightarrow> (nat \<Rightarrow> nat \<Rightarrow> 'a) \<Rightarrow> 'a ndarray" where
  "tabulate n m f = NDArray n m (map (\<lambda>i. map (f i) [0..<m]) [0..<n])"



text \<open>\<open>np.expand_dims(x, axis=-1)\<close> on a one-dimensional array: shape \<open>(n, 1)\<close>.\<close>

definition expand_dims :: "'a list \<Rightarrow> 'a ndarray" where
  "expand_dims x = NDArray (length x) 1 (map (\<lambda>a. [a]) x)"

text \<open>\<open>np.ones((n, m))\<close>\<close>

definition ones :: "nat \<Rightarrow> nat \<Rightarrow> 'a::one ndarray" where
  "ones n m = NDArray n m (replicate n (replicate m 1))"

text \<open>\<open>np.concatenate([A, B], axis=-1)\<close> on two-dimensional arrays: the rows are joined;
  the row counts must agree.\<close>

definition concatenate :: "'a ndarray \<Rightarrow> 'a ndarray \<Rightarrow> np_error + 'a ndarray" where
  "concatenate A B =
     (if nrows A = nrows B
      then Inr (NDArray (nrows A) (ncols A + ncols B) (map2 (@) (rows A) (rows B)))
      else Inl ValueError)"

text \<open>The design matrix of the notebook: the inputs, then a column of ones.\<close>

definition design_matrix :: "'a::field list \<Rightarrow> np_error + 'a ndarray" where
  "design_matrix x = concatenate (expand_dims x) (ones (length x) 1)"

text \<open>\<open>X.T\<close>\<close>

definition T :: "'a ndarray \<Rightarrow> 'a ndarray" where
  "T A = tabulate (ncols A) (nrows A) (\<lambda>i j. entry A j i)"

text \<open>\<open>np.matmul(A, B)\<close> on two-dimensional arrays: the inner dimensions must agree,
  and nothing is broadcast.\<close>

definition matmul :: "'a::field ndarray \<Rightarrow> 'a ndarray \<Rightarrow> np_error + 'a ndarray" where
  "matmul A B =
     (if ncols A = nrows B
      then Inr (tabulate (nrows A) (ncols B)
                 (\<lambda>i j. sum_list (map (\<lambda>k. entry A i k * entry B k j) [0..<ncols A])))
      else Inl ValueError)"

text \<open>
  \<open>np.linalg.inv(A)\<close> returns the inverse of a square matrix and raises LinAlgError when
  the matrix is not square or the factorisation meets a singular matrix. The model
  computes the inverse by Gauss-Jordan elimination on the rows of \<open>[A | I]\<close>. LAPACK
  takes the entry of largest magnitude as the pivot of a column; over a field the inverse
  does not depend on which non-zero pivot is taken, and the model takes the first.
\<close>

definition augment :: "nat \<Rightarrow> 'a::field list list \<Rightarrow> 'a list list" where
  "augment n A = map (\<lambda>i. A ! i @ map (\<lambda>k. if k = i then 1 else 0) [0..<n]) [0..<n]"

definition find_pivot :: "nat \<Rightarrow> 'a::field list list \<Rightarrow> nat option" where
  "find_pivot j R = find (\<lambda>i. R ! i ! j \<noteq> 0) [j..<length R]"

text \<open>One column: swap the pivot row into place, scale it to a leading one, and clear
  the column in every other row.\<close>

definition gj_col :: "nat \<Rightarrow> 'a::field list list \<Rightarrow> 'a list list option" where
  "gj_col j R =
     (case find_pivot j R of
        None \<Rightarrow> None
      | Some p \<Rightarrow>
          (let R1 = R[j := R ! p, p := R ! j];
               pr = map (\<lambda>a. a / (R1 ! j ! j)) (R1 ! j)
           in Some (map (\<lambda>i. if i = j then pr
                              else map2 (\<lambda>a b. a - (R1 ! i ! j) * b) (R1 ! i) pr)
                      [0..<length R])))"

fun gj_loop :: "nat list \<Rightarrow> 'a::field list list \<Rightarrow> 'a list list option" where
  "gj_loop [] R = Some R"
| "gj_loop (j # js) R = (case gj_col j R of None \<Rightarrow> None | Some R' \<Rightarrow> gj_loop js R')"

definition gauss_jordan :: "nat \<Rightarrow> 'a::field list list \<Rightarrow> 'a list list option" where
  "gauss_jordan n A = map_option (map (drop n)) (gj_loop [0..<n] (augment n A))"

definition linalg_inv :: "'a::field ndarray \<Rightarrow> np_error + 'a ndarray" where
  "linalg_inv A =
     (if nrows A \<noteq> ncols A then Inl LinAlgError
      else (case gauss_jordan (nrows A) (rows A) of
              None \<Rightarrow> Inl LinAlgError
            | Some B \<Rightarrow> Inr (NDArray (nrows A) (nrows A) B)))"

text \<open>
  The cell \<open>theta = np.matmul(np.linalg.inv(np.matmul(X.T, X)), np.matmul(X.T, y))\<close>.
  Python evaluates the arguments of the outer call from left to right: the Gram matrix
  and its inverse first, then \<open>X.T\<close> times \<open>y\<close>, then the outer product. The first
  exception ends the cell.
\<close>

definition theta :: "'a::field ndarray \<Rightarrow> 'a ndarray \<Rightarrow> np_error + 'a ndarray" where
  "theta X y =
     (case matmul (T X) X of
        Inl e \<Rightarrow> Inl e
      | Inr A \<Rightarrow>
         (case linalg_inv A of
            Inl e \<Rightarrow> Inl e
          | Inr Ainv \<Rightarrow>
             (case matmul (T X) y of
                Inl e \<Rightarrow> Inl e
              | Inr b \<Rightarrow> matmul Ainv b)))"

section \<open>Notions used to state the properties\<close>

text \<open>The matrix product as a sum over the inner index, and the identity matrix.\<close>

definition mm :: "'a::field ndarray \<Rightarrow> 'a ndarray \<Rightarrow> 'a ndarray" where
  "mm A B = tabulate (nrows A) (ncols B) (\<lambda>i j. \<Sum>k<ncols A. entry A i k * entry B k j)"

definition eye :: "nat \<Rightarrow> 'a::field ndarray" where
  "eye n = tabulate n n (\<lambda>i j. if i = j then 1 else 0)"

text \<open>
  The invariants of the elimination. Its state is a list of \<open>n\<close> rows of length
  \<open>n + n\<close>, the left half from \<open>A\<close> and the right half from the identity. After
  \<open>j\<close> columns the first \<open>j\<close> columns of the left half are unit vectors. A pair of
  coefficient vectors \<open>v\<close>, \<open>w\<close> gives a linear functional on a row; the vectors whose
  functional vanishes on every row are the same before and after a column step.
\<close>

definition rows_ok :: "nat \<Rightarrow> 'a list list \<Rightarrow> bool" where
  "rows_ok n R \<longleftrightarrow> length R = n \<and> (\<forall>i<n. length (R ! i) = n + n)"

definition unit_cols :: "nat \<Rightarrow> nat \<Rightarrow> 'a::field list list \<Rightarrow> bool" where
  "unit_cols n j R \<longleftrightarrow> (\<forall>i<n. \<forall>c<j. R ! i ! c = (if i = c then 1 else 0))"

definition phi :: "nat \<Rightarrow> (nat \<Rightarrow> 'a) \<Rightarrow> (nat \<Rightarrow> 'a) \<Rightarrow> 'a list \<Rightarrow> 'a::field" where
  "phi n v w r = (\<Sum>c<n. r ! c * v c) + (\<Sum>k<n. r ! (n + k) * w k)"

definition vanishes :: "nat \<Rightarrow> (nat \<Rightarrow> 'a) \<Rightarrow> (nat \<Rightarrow> 'a) \<Rightarrow> 'a::field list list \<Rightarrow> bool" where
  "vanishes n v w R \<longleftrightarrow> (\<forall>i<n. phi n v w (R ! i) = 0)"

text \<open>A two-sided inverse of a square matrix.\<close>

definition inverse_of :: "'a::field ndarray \<Rightarrow> 'a ndarray \<Rightarrow> bool" where
  "inverse_of A B \<longleftrightarrow>
     wf_array B \<and> nrows B = nrows A \<and> ncols B = nrows A \<and> ncols A = nrows A \<and>
     mm B A = eye (nrows A) \<and> mm A B = eye (nrows A)"


text \<open>The residual \<open>X\<theta> - y\<close>, the zero array, the sum of the entries of two arrays,
  and the sum-of-squared-residuals loss.\<close>

definition residual :: "'a::field ndarray \<Rightarrow> 'a ndarray \<Rightarrow> 'a ndarray \<Rightarrow> 'a ndarray" where
  "residual X t y = tabulate (nrows X) (ncols y) (\<lambda>i j. entry (mm X t) i j - entry y i j)"

definition zeros :: "nat \<Rightarrow> nat \<Rightarrow> 'a::field ndarray" where
  "zeros n m = tabulate n m (\<lambda>i j. 0)"

definition plus_array :: "'a::field ndarray \<Rightarrow> 'a ndarray \<Rightarrow> 'a ndarray" where
  "plus_array A B = tabulate (nrows A) (ncols A) (\<lambda>i j. entry A i j + entry B i j)"


text \<open>The rows of \<open>A\<close> in the order given by the index list \<open>p\<close>, as \<open>A[p]\<close> does for
  a permutation \<open>p\<close> of the row indices.\<close>

definition permute_rows :: "nat list \<Rightarrow> 'a ndarray \<Rightarrow> 'a ndarray" where
  "permute_rows p A = NDArray (length p) (ncols A) (map (\<lambda>i. rows A ! i) p)"

section \<open>Properties of the 311 loading loop\<close>

lemma append_row_distinct:
  "distinct (map fst kvs) \<Longrightarrow> \<forall>k \<in> set (map fst kvs). d k \<noteq> None \<Longrightarrow>
   \<exists>d'. append_row kvs d = Inr d' \<and>
     (\<forall>k. d' k = (case map_of kvs k of None \<Rightarrow> d k | Some v \<Rightarrow> map_option (\<lambda>col. col @ [v]) (d k)))"
proof (induction kvs arbitrary: d)
  case Nil
  then show ?case by simp
next
  case (Cons kv kvs)
  obtain key v where kv: "kv = (key, v)" by (cases kv)
  from Cons.prems obtain col where col: "d key = Some col" by (auto simp: kv)
  let ?d = "d(key \<mapsto> col @ [v])"
  have "\<exists>d'. append_row kvs ?d = Inr d' \<and>
     (\<forall>k. d' k = (case map_of kvs k of None \<Rightarrow> ?d k | Some v \<Rightarrow> map_option (\<lambda>col. col @ [v]) (?d k)))"
    using Cons.prems by (intro Cons.IH) (auto simp: kv)
  then obtain d' where d': "append_row kvs ?d = Inr d'"
     "\<And>k. d' k = (case map_of kvs k of None \<Rightarrow> ?d k | Some v \<Rightarrow> map_option (\<lambda>col. col @ [v]) (?d k))"
    by blast
  have "key \<notin> fst ` set kvs" using Cons.prems by (auto simp: kv)
  then have "map_of kvs key = None" by (simp add: map_of_eq_None_iff)
  then show ?case using d' col
    by (auto simp: kv append_value_def split: option.splits)
qed

lemma fold_setdefault:
  "fold (\<lambda>key d. setdefault key [] d) ks d k =
     (if k \<in> set ks \<and> d k = None then Some [] else d k)"
  by (induction ks arbitrary: d) (auto simp: setdefault_def split: option.splits)

lemma map_of_zip_nth_le:
  "distinct h \<Longrightarrow> length h \<le> length vs \<Longrightarrow> j < length h \<Longrightarrow> map_of (zip h vs) (h ! j) = Some (vs ! j)"
proof (induction h arbitrary: vs j)
  case Nil
  then show ?case by simp
next
  case (Cons k h)
  then obtain v vs' where vs: "vs = v # vs'" by (cases vs) auto
  show ?case
  proof (cases j)
    case 0
    then show ?thesis by (simp add: vs)
  next
    case (Suc j')
    with Cons.prems have "h ! j' \<noteq> k" by auto
    with Cons Suc show ?thesis by (simp add: vs)
  qed
qed

lemma loop_body_row:
  assumes "0 < i" "header st = Some h" "distinct h" "dom (data st) = set h"
    and "length h \<le> length (line_fields line)"
  shows "\<exists>st'. loop_body i line st = Inr st' \<and> header st' = Some h \<and> dom (data st') = set h \<and>
     (\<forall>j < length h. data st' (h ! j) = Some (the (data st (h ! j)) @ [line_fields line ! j]))"
proof -
  let ?kvs = "zip h (line_fields line)"
  have fst: "map fst ?kvs = h" using assms(5) by (simp add: map_fst_zip_take min_def)
  have "\<forall>k \<in> set (map fst ?kvs). data st k \<noteq> None"
    using assms(4) unfolding fst by auto
  with append_row_distinct[of ?kvs "data st"] fst assms(3)
  obtain d' where d': "append_row ?kvs (data st) = Inr d'"
    "\<And>k. d' k = (case map_of ?kvs k of None \<Rightarrow> data st k
        | Some v \<Rightarrow> map_option (\<lambda>col. col @ [v]) (data st k))"
    by auto
  have dom: "dom d' = set h"
  proof -
    have "d' k \<noteq> None \<longleftrightarrow> data st k \<noteq> None" for k
      by (simp add: d'(2) split: option.splits)
    then have "dom d' = dom (data st)" by (auto simp: dom_def)
    then show ?thesis using assms(4) by simp
  qed
  have cols: "d' (h ! j) = Some (the (data st (h ! j)) @ [line_fields line ! j])" if "j < length h" for j
  proof -
    have "map_of ?kvs (h ! j) = Some (line_fields line ! j)"
      using map_of_zip_nth_le[OF assms(3) assms(5) that] .
    moreover have "h ! j \<in> dom (data st)" using assms(4) that by simp
    ultimately show ?thesis by (auto simp: d'(2))
  qed
  show ?thesis
    using assms(1,2) d'(1) dom cols by (simp add: loop_body_def Let_def)
qed

lemma run_loop_rows:
  assumes "0 < i" "header st = Some h" "distinct h" "dom (data st) = set h"
    and "\<forall>l \<in> set ls. length h \<le> length (line_fields l)"
  shows "\<exists>st'. run_loop (enumerate i ls) st = Inr st' \<and> header st' = Some h \<and> dom (data st') = set h \<and>
     (\<forall>j < length h. data st' (h ! j) = Some (the (data st (h ! j)) @ map (\<lambda>l. line_fields l ! j) ls))"
  using assms
proof (induction ls arbitrary: i st)
  case Nil
  have "data st (h ! j) = Some (the (data st (h ! j)))" if "j < length h" for j
  proof -
    have "h ! j \<in> dom (data st)" using Nil.prems(4) that by simp
    then show ?thesis by auto
  qed
  with Nil show ?case by simp
next
  case (Cons l ls)
  from Cons.prems have len: "length h \<le> length (line_fields l)" by simp
  from loop_body_row[OF Cons.prems(1-4) len]
  obtain st1 where st1: "loop_body i l st = Inr st1" "header st1 = Some h" "dom (data st1) = set h"
    "\<And>j. j < length h \<Longrightarrow> data st1 (h ! j) = Some (the (data st (h ! j)) @ [line_fields l ! j])"
    by blast
  have "\<exists>st'. run_loop (enumerate (Suc i) ls) st1 = Inr st' \<and> header st' = Some h \<and> dom (data st') = set h \<and>
     (\<forall>j < length h. data st' (h ! j) = Some (the (data st1 (h ! j)) @ map (\<lambda>l. line_fields l ! j) ls))"
    using Cons.prems st1(2,3) by (intro Cons.IH) auto
  then obtain st' where st': "run_loop (enumerate (Suc i) ls) st1 = Inr st'" "header st' = Some h"
    "dom (data st') = set h"
    "\<And>j. j < length h \<Longrightarrow> data st' (h ! j) = Some (the (data st1 (h ! j)) @ map (\<lambda>l. line_fields l ! j) ls)"
    by blast
  show ?case using st1(1) st' st1(4) by simp
qed

lemma append_row_total:
  "\<forall>k \<in> set (map fst kvs). d k \<noteq> None \<Longrightarrow> \<exists>d'. append_row kvs d = Inr d' \<and> dom d' = dom d"
proof (induction kvs arbitrary: d)
  case Nil
  then show ?case by simp
next
  case (Cons kv kvs)
  obtain key v where kv: "kv = (key, v)" by (cases kv)
  from Cons.prems obtain col where col: "d key = Some col" by (auto simp: kv)
  let ?d = "d(key \<mapsto> col @ [v])"
  have dm: "dom ?d = dom d" using col by auto
  have "\<exists>d'. append_row kvs ?d = Inr d' \<and> dom d' = dom ?d"
    using Cons.prems by (intro Cons.IH) (auto simp: kv)
  then show ?case using col dm by (auto simp: kv append_value_def)
qed

lemma loop_body_total:
  assumes "0 < i" "header st = Some h" "dom (data st) = set h"
  shows "\<exists>st'. loop_body i line st = Inr st' \<and> header st' = Some h \<and> dom (data st') = set h"
proof -
  have "\<forall>k \<in> set (map fst (zip h (line_fields line))). data st k \<noteq> None"
    using assms(3) by (auto dest!: set_zip_leftD)
  from append_row_total[OF this] obtain d' where
    "append_row (zip h (line_fields line)) (data st) = Inr d'" "dom d' = dom (data st)" by blast
  then show ?thesis using assms by (simp add: loop_body_def Let_def)
qed

lemma run_loop_total:
  assumes "0 < i" "header st = Some h" "dom (data st) = set h"
  shows "\<exists>st'. run_loop (enumerate i ls) st = Inr st' \<and> header st' = Some h \<and> dom (data st') = set h"
  using assms
proof (induction ls arbitrary: i st)
  case Nil
  then show ?case by simp
next
  case (Cons l ls)
  from loop_body_total[OF Cons.prems] obtain st1 where
    st1: "loop_body i l st = Inr st1" "header st1 = Some h" "dom (data st1) = set h" by blast
  have "\<exists>st'. run_loop (enumerate (Suc i) ls) st1 = Inr st' \<and> header st' = Some h \<and> dom (data st') = set h"
    by (rule Cons.IH) (simp_all add: st1)
  then show ?case using st1(1) by simp
qed

lemma run_loop_append:
  "run_loop (as @ bs) st = (case run_loop as st of Inl e \<Rightarrow> Inl e | Inr st' \<Rightarrow> run_loop bs st')"
  by (induction as arbitrary: st) (auto split: sum.splits)

lemma first_line_state:
  "loop_body 0 first_line \<lparr>header = None, data = Map.empty\<rparr> = Inr st0 \<Longrightarrow>
   header st0 = Some (line_fields first_line) \<and> dom (data st0) = set (line_fields first_line)"
  by (auto simp: loop_body_def Let_def dom_def fold_setdefault split: if_splits)

lemma load_step:
  assumes "k < length ls"
  shows "\<exists>st. load (first_line # take k ls) = Inr st \<and>
      header st = Some (line_fields first_line) \<and> dom (data st) = set (line_fields first_line) \<and>
      load (first_line # take (Suc k) ls) = loop_body (Suc k) (ls ! k) st"
proof -
  let ?h = "line_fields first_line"
  obtain st0 where st0: "loop_body 0 first_line \<lparr>header = None, data = Map.empty\<rparr> = Inr st0"
    by (simp add: loop_body_def Let_def)
  note s0 = first_line_state[OF st0]
  from run_loop_total[of 1 st0 ?h "take k ls"] s0 obtain st where
    st: "run_loop (enumerate 1 (take k ls)) st0 = Inr st" "header st = Some ?h" "dom (data st) = set ?h"
    by auto
  have "take (Suc k) ls = take k ls @ [ls ! k]" using assms by (simp add: take_Suc_conv_app_nth)
  then have "enumerate 1 (take (Suc k) ls) = enumerate 1 (take k ls) @ [(Suc k, ls ! k)]"
    using assms by (simp add: enumerate_append_eq min_def)
  then have "run_loop (enumerate 1 (take (Suc k) ls)) st0 = loop_body (Suc k) (ls ! k) st"
    using st(1) by (simp add: run_loop_append split: sum.splits)
  then have "load (first_line # take (Suc k) ls) = loop_body (Suc k) (ls ! k) st"
    using st0 by (simp add: load_def)
  moreover have "load (first_line # take k ls) = Inr st"
    using st0 st(1) by (simp add: load_def)
  ultimately show ?thesis using st(2,3) by blast
qed

text \<open>
  Claim C10, as amended. Let the column names of the header line be pairwise distinct.
  Then every later line that splits into at least as many fields as the header appends
  exactly one entry to the list of every column, its field at the position of the column;
  and when every later line has that many fields, the loop ends without an error, the
  keys of \<open>data\<close> are the column names, and the list of column \<open>j\<close> is field \<open>j\<close> of
  every data line, in the order of the lines: all lists have the length of the data
  lines, and index \<open>i\<close> of every list is taken from line \<open>i\<close>.
\<close>

theorem load_columns_aligned:
  assumes "distinct (line_fields first_line)"
  shows "(\<forall>k<length ls. length (line_fields first_line) \<le> length (line_fields (ls ! k)) \<longrightarrow>
            (\<exists>st st'. load (first_line # take k ls) = Inr st \<and>
               load (first_line # take (Suc k) ls) = Inr st' \<and>
               (\<forall>j < length (line_fields first_line). \<exists>col.
                  data st (line_fields first_line ! j) = Some col \<and>
                  data st' (line_fields first_line ! j) = Some (col @ [line_fields (ls ! k) ! j]))))
       \<and> ((\<forall>l \<in> set ls. length (line_fields first_line) \<le> length (line_fields l)) \<longrightarrow>
            (\<exists>st. load (first_line # ls) = Inr st \<and> header st = Some (line_fields first_line) \<and>
               dom (data st) = set (line_fields first_line) \<and>
               (\<forall>j < length (line_fields first_line).
                  data st (line_fields first_line ! j) = Some (map (\<lambda>l. line_fields l ! j) ls))))"
proof (intro conjI allI impI)
  let ?h = "line_fields first_line"
  fix k assume k: "k < length ls" and len: "length ?h \<le> length (line_fields (ls ! k))"
  from load_step[OF k, of first_line] obtain st where
    st: "load (first_line # take k ls) = Inr st" "header st = Some ?h" "dom (data st) = set ?h"
      "load (first_line # take (Suc k) ls) = loop_body (Suc k) (ls ! k) st"
    by blast
  have "0 < Suc k" by simp
  from loop_body_row[OF this st(2) assms st(3) len] obtain st' where
    st': "loop_body (Suc k) (ls ! k) st = Inr st'"
      "\<And>j. j < length ?h \<Longrightarrow> data st' (?h ! j) = Some (the (data st (?h ! j)) @ [line_fields (ls ! k) ! j])"
    by blast
  have "\<exists>col. data st (?h ! j) = Some col \<and> data st' (?h ! j) = Some (col @ [line_fields (ls ! k) ! j])"
    if "j < length ?h" for j
  proof -
    have "?h ! j \<in> dom (data st)" using st(3) that by simp
    then obtain col where "data st (?h ! j) = Some col" by auto
    then show ?thesis using st'(2)[OF that] by simp
  qed
  moreover have "load (first_line # take (Suc k) ls) = Inr st'"
    using st(4) st'(1) by simp
  ultimately show "\<exists>st st'. load (first_line # take k ls) = Inr st \<and>
               load (first_line # take (Suc k) ls) = Inr st' \<and>
               (\<forall>j < length ?h. \<exists>col.
                  data st (?h ! j) = Some col \<and>
                  data st' (?h ! j) = Some (col @ [line_fields (ls ! k) ! j]))"
    using st(1) by blast
next
  let ?h = "line_fields first_line"
  assume all: "\<forall>l \<in> set ls. length ?h \<le> length (line_fields l)"
  let ?st0 = "\<lparr>header = Some ?h, data = fold (\<lambda>key d. setdefault key [] d) ?h Map.empty\<rparr>"
  have b: "loop_body 0 first_line \<lparr>header = None, data = Map.empty\<rparr> = Inr ?st0"
    by (simp add: loop_body_def Let_def)
  have dom0: "dom (data ?st0) = set ?h" by (auto simp: dom_def fold_setdefault split: if_splits)
  have h0: "header ?st0 = Some ?h" by simp
  have "0 < (1::nat)" by simp
  from run_loop_rows[OF this h0 assms dom0 all]
  obtain st' where st': "run_loop (enumerate 1 ls) ?st0 = Inr st'" "header st' = Some ?h"
    "dom (data st') = set ?h"
    "\<And>j. j < length ?h \<Longrightarrow>
       data st' (?h ! j) = Some (the (data ?st0 (?h ! j)) @ map (\<lambda>l. line_fields l ! j) ls)"
    by blast
  have "load (first_line # ls) = Inr st'"
    using b st'(1) by (simp add: load_def)
  moreover have "data st' (?h ! j) = Some (map (\<lambda>l. line_fields l ! j) ls)" if "j < length ?h" for j
    using st'(4)[OF that] that by (simp add: fold_setdefault)
  ultimately show "\<exists>st. load (first_line # ls) = Inr st \<and> header st = Some ?h \<and>
               dom (data st) = set ?h \<and>
               (\<forall>j < length ?h. data st (?h ! j) = Some (map (\<lambda>l. line_fields l ! j) ls))"
    using st'(2,3) by blast
qed

theorem load_columns_aligned_witness:
  "distinct (line_fields [CHR ''a'', CHR 0x09, CHR ''b'', CHR 0x0A]) \<and>
   length (line_fields [CHR ''a'', CHR 0x09, CHR ''b'', CHR 0x0A])
     \<le> length (line_fields [CHR ''1'', CHR 0x09, CHR ''2'', CHR 0x09, CHR ''3'', CHR 0x0A]) \<and>
   (\<exists>st st'. load [[CHR ''a'', CHR 0x09, CHR ''b'', CHR 0x0A]] = Inr st \<and>
       load [[CHR ''a'', CHR 0x09, CHR ''b'', CHR 0x0A],
             [CHR ''1'', CHR 0x09, CHR ''2'', CHR 0x09, CHR ''3'', CHR 0x0A]] = Inr st' \<and>
       (\<exists>col. data st ''a'' = Some col \<and> data st' ''a'' = Some (col @ [''1''])) \<and>
       (\<exists>col. data st ''b'' = Some col \<and> data st' ''b'' = Some (col @ [''2''])) \<and>
       data st' ''a'' = Some [''1''] \<and> data st' ''b'' = Some [''2''])"
proof -
  let ?h = "[CHR ''a'', CHR 0x09, CHR ''b'', CHR 0x0A]"
  let ?l = "[CHR ''1'', CHR 0x09, CHR ''2'', CHR 0x09, CHR ''3'', CHR 0x0A]"
  have f1: "line_fields ?h = [''a'', ''b'']"
    by (simp add: line_fields_def strip_def isspace_def Let_def)
  have f2: "line_fields ?l = [''1'', ''2'', ''3'']"
    by (simp add: line_fields_def strip_def isspace_def Let_def)
  have d: "distinct (line_fields ?h)"
    by (simp add: f1)
  note t = load_columns_aligned[OF d, of "[?l]", unfolded f1]
  have k: "0 < length [?l]" by simp
  have len: "length [''a'', ''b''] \<le> length (line_fields ([?l] ! 0))" by (simp add: f2)
  from t[THEN conjunct1, rule_format, OF k len]
  obtain st st' where s0: "load (?h # take 0 [?l]) = Inr st" "load (?h # take (Suc 0) [?l]) = Inr st'"
    and g: "\<forall>j<length [''a'', ''b'']. \<exists>col. data st ([''a'', ''b''] ! j) = Some col \<and>
          data st' ([''a'', ''b''] ! j) = Some (col @ [line_fields ([?l] ! 0) ! j])"
    by blast
  from s0 have s: "load [?h] = Inr st" "load [?h, ?l] = Inr st'" by simp_all
  from g[rule_format, of 0] have ga: "\<exists>col. data st ''a'' = Some col \<and> data st' ''a'' = Some (col @ [''1''])"
    by (simp add: f2)
  from g[rule_format, of 1] have gb: "\<exists>col. data st ''b'' = Some col \<and> data st' ''b'' = Some (col @ [''2''])"
    by (simp add: f2)
  have all: "\<forall>l \<in> set [?l]. length [''a'', ''b''] \<le> length (line_fields l)" by (simp add: f2)
  from mp[OF t[THEN conjunct2] all]
  obtain st2 where s2: "load [?h, ?l] = Inr st2"
    and w0: "\<forall>j<length [''a'', ''b'']. data st2 ([''a'', ''b''] ! j) = Some (map (\<lambda>l. line_fields l ! j) [?l])"
    by blast
  from s(2) s2 have "st2 = st'" by simp
  with w0 have w: "\<forall>j<length [''a'', ''b'']. data st' ([''a'', ''b''] ! j) = Some (map (\<lambda>l. line_fields l ! j) [?l])"
    by simp
  from w[rule_format, of 0] have wa: "data st' ''a'' = Some [''1'']" by (simp add: f2)
  from w[rule_format, of 1] have wb: "data st' ''b'' = Some [''2'']" by (simp add: f2)
  have c2: "length (line_fields ?h) \<le> length (line_fields ?l)" by (simp add: f1 f2)
  have c3: "\<exists>st st'. load [?h] = Inr st \<and> load [?h, ?l] = Inr st' \<and>
       (\<exists>col. data st ''a'' = Some col \<and> data st' ''a'' = Some (col @ [''1''])) \<and>
       (\<exists>col. data st ''b'' = Some col \<and> data st' ''b'' = Some (col @ [''2''])) \<and>
       data st' ''a'' = Some [''1''] \<and> data st' ''b'' = Some [''2'']"
    using s ga gb wa wb by blast
  show ?thesis by (intro conjI d c2 c3)
qed

text \<open>
  Without distinct column names the claim fails: with the header \<open>a<TAB>a\<close> the one
  data line \<open>1<TAB>2\<close> appends two entries to the list of column \<open>a\<close>.
\<close>

theorem load_duplicate_header_counterexample:
  "(case load [[CHR ''a'', CHR 0x09, CHR ''a'', CHR 0x0A],
               [CHR ''1'', CHR 0x09, CHR ''2'', CHR 0x0A]] of
      Inl e \<Rightarrow> None
    | Inr st \<Rightarrow> data st ''a'') = Some [''1'', ''2'']"
  by (simp add: load_def loop_body_def line_fields_def strip_def isspace_def setdefault_def append_value_def Let_def)

section \<open>Properties of the normal-equations cell\<close>

subsection \<open>Arrays\<close>

lemma sum_list_upt: "sum_list (map f [0..<m]) = (\<Sum>k<m. f k)"
  by (simp add: interv_sum_list_conv_sum_set_nat atLeast0LessThan)

lemma wf_array_iff:
  "wf_array A \<longleftrightarrow> length (rows A) = nrows A \<and> (\<forall>i<nrows A. length (rows A ! i) = ncols A)"
  by (auto simp: wf_array_def list_all_length)

lemma wf_tabulate [simp]: "wf_array (tabulate n m f)"
  by (simp add: wf_array_iff tabulate_def)

lemma nrows_tabulate [simp]: "nrows (tabulate n m f) = n"
  by (simp add: tabulate_def)

lemma ncols_tabulate [simp]: "ncols (tabulate n m f) = m"
  by (simp add: tabulate_def)

lemma entry_tabulate [simp]: "i < n \<Longrightarrow> j < m \<Longrightarrow> entry (tabulate n m f) i j = f i j"
  by (simp add: tabulate_def entry_def)

lemma tabulate_entry: "wf_array A \<Longrightarrow> tabulate (nrows A) (ncols A) (entry A) = A"
proof -
  assume wf: "wf_array A"
  have "map (\<lambda>i. map (entry A i) [0..<ncols A]) [0..<nrows A] = rows A"
  proof (rule nth_equalityI)
    show "length (map (\<lambda>i. map (entry A i) [0..<ncols A]) [0..<nrows A]) = length (rows A)"
      using wf by (simp add: wf_array_iff)
  next
    fix i assume "i < length (map (\<lambda>i. map (entry A i) [0..<ncols A]) [0..<nrows A])"
    then have i: "i < nrows A" by simp
    then have "length (rows A ! i) = ncols A" using wf by (simp add: wf_array_iff)
    then have "map (entry A i) [0..<ncols A] = rows A ! i"
      by (intro nth_equalityI) (auto simp: entry_def)
    with i show "map (\<lambda>i. map (entry A i) [0..<ncols A]) [0..<nrows A] ! i = rows A ! i"
      by simp
  qed
  then show ?thesis by (cases A) (simp add: tabulate_def)
qed

lemma tabulate_cong:
  "(\<And>i j. i < n \<Longrightarrow> j < m \<Longrightarrow> f i j = g i j) \<Longrightarrow> tabulate n m f = tabulate n m g"
  by (simp add: tabulate_def)

lemma array_eqI:
  assumes "wf_array A" "wf_array B" "nrows A = nrows B" "ncols A = ncols B"
    and "\<And>i j. i < nrows A \<Longrightarrow> j < ncols A \<Longrightarrow> entry A i j = entry B i j"
  shows "A = B"
proof -
  have "tabulate (nrows A) (ncols A) (entry A) = tabulate (nrows A) (ncols A) (entry B)"
    using assms(5) by (rule tabulate_cong)
  moreover have "tabulate (nrows A) (ncols A) (entry A) = A"
    using assms(1) by (rule tabulate_entry)
  moreover have "tabulate (nrows A) (ncols A) (entry B) = B"
    using assms(2) tabulate_entry[of B] by (simp add: assms(3,4))
  ultimately show ?thesis by simp
qed

lemma T_simps [simp]: "wf_array (T A)" "nrows (T A) = ncols A" "ncols (T A) = nrows A"
  by (simp_all add: T_def)

lemma entry_T [simp]: "i < ncols A \<Longrightarrow> j < nrows A \<Longrightarrow> entry (T A) i j = entry A j i"
  by (simp add: T_def)

lemma matmul_eq: "matmul A B = (if ncols A = nrows B then Inr (mm A B) else Inl ValueError)"
  by (simp add: matmul_def mm_def sum_list_upt)

lemma mm_simps [simp]: "wf_array (mm A B)" "nrows (mm A B) = nrows A" "ncols (mm A B) = ncols B"
  by (simp_all add: mm_def)

lemma entry_mm [simp]:
  "i < nrows A \<Longrightarrow> j < ncols B \<Longrightarrow> entry (mm A B) i j = (\<Sum>k<ncols A. entry A i k * entry B k j)"
  by (simp add: mm_def)

lemma mm_assoc:
  assumes "ncols A = nrows B" "ncols B = nrows C"
  shows "mm (mm A B) C = mm A (mm B C)"
proof (rule array_eqI)
  fix i j assume ij: "i < nrows (mm (mm A B) C)" "j < ncols (mm (mm A B) C)"
  have "entry (mm (mm A B) C) i j = (\<Sum>k<ncols B. \<Sum>l<ncols A. entry A i l * entry B l k * entry C k j)"
    using ij by (simp add: sum_distrib_right)
  also have "\<dots> = (\<Sum>l<ncols A. \<Sum>k<ncols B. entry A i l * entry B l k * entry C k j)"
    by (rule sum.swap)
  also have "\<dots> = entry (mm A (mm B C)) i j"
    using ij assms by (simp add: sum_distrib_left mult.assoc)
  finally show "entry (mm (mm A B) C) i j = entry (mm A (mm B C)) i j" .
qed (simp_all)

lemma eye_simps [simp]: "wf_array (eye n)" "nrows (eye n) = n" "ncols (eye n) = n"
  by (simp_all add: eye_def)

lemma entry_eye [simp]: "i < n \<Longrightarrow> j < n \<Longrightarrow> entry (eye n) i j = (if i = j then 1 else 0)"
  by (simp add: eye_def)

lemma mm_eye_left: "wf_array A \<Longrightarrow> mm (eye (nrows A)) A = A"
  by (rule array_eqI) (simp_all add: if_distrib[of "\<lambda>x. x * _"] cong: if_cong)



lemma T_T: "wf_array A \<Longrightarrow> T (T A) = A"
  by (rule array_eqI) simp_all

subsection \<open>Gauss-Jordan elimination\<close>

lemma find_pivot_Some:
  "find_pivot j R = Some p \<Longrightarrow> j \<le> p \<and> p < length R \<and> R ! p ! j \<noteq> 0"
  by (auto simp: find_pivot_def find_Some_iff)


lemma phi_scale:
  "length r = n + n \<Longrightarrow> phi n v w (map (\<lambda>a. a / c) r) = phi n v w r / c"
  by (simp add: phi_def add_divide_distrib sum_divide_distrib)

lemma phi_sub:
  "length r = n + n \<Longrightarrow> length s = n + n \<Longrightarrow>
   phi n v w (map2 (\<lambda>a b. a - f * b) r s) = phi n v w r - f * phi n v w s"
  by (simp add: phi_def algebra_simps sum_subtractf sum_distrib_left)

text \<open>The rows after one column step.\<close>

lemma gj_col_rows:
  assumes "gj_col j R = Some R'" "rows_ok n R" "j < n"
  obtains p where "j \<le> p" "p < n" "R ! p ! j \<noteq> 0"
    and "length R' = n"
    and "R' ! j = map (\<lambda>a. a / (R ! p ! j)) (R ! p)"
    and "\<And>i. i < n \<Longrightarrow> i \<noteq> j \<Longrightarrow>
          R' ! i = map2 (\<lambda>a b. a - ((if i = p then R ! j else R ! i) ! j) * b)
                     (if i = p then R ! j else R ! i) (R' ! j)"
proof -
  from assms(1) obtain p where p: "find_pivot j R = Some p"
    by (auto simp: gj_col_def split: option.splits)
  from find_pivot_Some[OF p] assms(2) have pj: "j \<le> p" "p < n" "R ! p ! j \<noteq> 0"
    by (auto simp: rows_ok_def)
  define R1 where "R1 = R[j := R ! p, p := R ! j]"
  have len: "length R = n" using assms(2) by (simp add: rows_ok_def)
  have R1: "R1 ! i = (if i = p then R ! j else if i = j then R ! p else R ! i)" if "i < n" for i
    using that len pj assms(3) by (auto simp: R1_def nth_list_update)
  define pr where "pr = map (\<lambda>a. a / (R1 ! j ! j)) (R1 ! j)"
  have R': "R' = map (\<lambda>i. if i = j then pr
                              else map2 (\<lambda>a b. a - (R1 ! i ! j) * b) (R1 ! i) pr) [0..<n]"
    using assms(1) p len unfolding R1_def pr_def by (auto simp: gj_col_def Let_def)
  have R1j: "R1 ! j = R ! p" using R1[OF assms(3)] by auto
  have 1: "length R' = n" by (simp add: R')
  have 2: "R' ! j = map (\<lambda>a. a / (R ! p ! j)) (R ! p)"
    using assms(3) by (simp add: R' pr_def R1j)
  have 3: "R' ! i = map2 (\<lambda>a b. a - ((if i = p then R ! j else R ! i) ! j) * b)
                     (if i = p then R ! j else R ! i) (R' ! j)" if "i < n" "i \<noteq> j" for i
  proof -
    have "R' ! j = pr" using assms(3) by (simp add: R')
    moreover have "R1 ! i = (if i = p then R ! j else R ! i)" using R1[OF that(1)] that(2) by simp
    ultimately show ?thesis using that by (simp add: R')
  qed
  show thesis using that[OF pj 1 2 3] by blast
qed

lemma gj_col_rows_ok:
  assumes "gj_col j R = Some R'" "rows_ok n R" "j < n"
  shows "rows_ok n R'"
proof -
  from gj_col_rows[OF assms] obtain p where p: "j \<le> p" "p < n" "R ! p ! j \<noteq> 0"
    "length R' = n" "R' ! j = map (\<lambda>a. a / (R ! p ! j)) (R ! p)"
    "\<And>i. i < n \<Longrightarrow> i \<noteq> j \<Longrightarrow>
          R' ! i = map2 (\<lambda>a b. a - ((if i = p then R ! j else R ! i) ! j) * b)
                     (if i = p then R ! j else R ! i) (R' ! j)"
    by blast
  have lj: "length (R' ! j) = n + n" using p(2,5) assms(2) by (simp add: rows_ok_def)
  have "length (R' ! i) = n + n" if "i < n" for i
  proof (cases "i = j")
    case True
    then show ?thesis using lj by simp
  next
    case False
    then show ?thesis using p(6)[OF that False] lj assms(2,3) that by (simp add: rows_ok_def)
  qed
  then show ?thesis using p(4) by (simp add: rows_ok_def)
qed

lemma gj_col_vanishes:
  assumes "gj_col j R = Some R'" "rows_ok n R" "j < n"
  shows "vanishes n v w R' = vanishes n v w R"
proof -
  from gj_col_rows[OF assms] obtain p where p: "j \<le> p" "p < n" "R ! p ! j \<noteq> 0"
    "length R' = n" "R' ! j = map (\<lambda>a. a / (R ! p ! j)) (R ! p)"
    "\<And>i. i < n \<Longrightarrow> i \<noteq> j \<Longrightarrow>
          R' ! i = map2 (\<lambda>a b. a - ((if i = p then R ! j else R ! i) ! j) * b)
                     (if i = p then R ! j else R ! i) (R' ! j)"
    by blast
  have len: "\<And>i. i < n \<Longrightarrow> length (R ! i) = n + n" using assms(2) by (simp add: rows_ok_def)
  have len': "\<And>i. i < n \<Longrightarrow> length (R' ! i) = n + n"
    using gj_col_rows_ok[OF assms] by (simp add: rows_ok_def)
  have dj: "phi n v w (R' ! j) = phi n v w (R ! p) / (R ! p ! j)"
    using p(2) by (simp add: p(5) phi_scale len)
  have di: "phi n v w (R' ! i) =
      phi n v w (if i = p then R ! j else R ! i)
        - ((if i = p then R ! j else R ! i) ! j) * phi n v w (R' ! j)" if "i < n" "i \<noteq> j" for i
    using p(6)[OF that] that assms(3) len len' by (auto simp: phi_sub)
  show ?thesis
  proof
    assume z: "vanishes n v w R"
    then have zz: "\<And>i. i < n \<Longrightarrow> phi n v w (R ! i) = 0" by (simp add: vanishes_def)
    have "phi n v w (R' ! i) = 0" if "i < n" for i
    proof (cases "i = j")
      case True
      then show ?thesis using dj zz[OF p(2)] by simp
    next
      case False
      then show ?thesis using di[OF that False] dj zz[OF p(2)] zz[OF assms(3)] zz[OF that] by simp
    qed
    then show "vanishes n v w R'" by (simp add: vanishes_def)
  next
    assume z: "vanishes n v w R'"
    then have zz: "\<And>i. i < n \<Longrightarrow> phi n v w (R' ! i) = 0" by (simp add: vanishes_def)
    have zp: "phi n v w (R ! p) = 0" using dj zz[OF assms(3)] p(3) by simp
    have "phi n v w (R ! i) = 0" if "i < n" for i
    proof (cases "i = p")
      case True
      then show ?thesis using zp by simp
    next
      case ip: False
      show ?thesis
      proof (cases "i = j")
        case True
        with ip have "p \<noteq> j" by simp
        from di[OF p(2) this] zz[OF p(2)] zz[OF assms(3)] True show ?thesis by simp
      next
        case False
        from di[OF that False] zz[OF that] zz[OF assms(3)] ip show ?thesis by simp
      qed
    qed
    then show "vanishes n v w R" by (simp add: vanishes_def)
  qed
qed

lemma gj_col_unit_cols:
  assumes "gj_col j R = Some R'" "rows_ok n R" "j < n" "unit_cols n j R"
  shows "unit_cols n (Suc j) R'"
proof -
  from gj_col_rows[OF assms(1-3)] obtain p where p: "j \<le> p" "p < n" "R ! p ! j \<noteq> 0"
    "length R' = n" "R' ! j = map (\<lambda>a. a / (R ! p ! j)) (R ! p)"
    "\<And>i. i < n \<Longrightarrow> i \<noteq> j \<Longrightarrow>
          R' ! i = map2 (\<lambda>a b. a - ((if i = p then R ! j else R ! i) ! j) * b)
                     (if i = p then R ! j else R ! i) (R' ! j)"
    by blast
  have len: "\<And>i. i < n \<Longrightarrow> length (R ! i) = n + n" using assms(2) by (simp add: rows_ok_def)
  have len': "\<And>i. i < n \<Longrightarrow> length (R' ! i) = n + n"
    using gj_col_rows_ok[OF assms(1-3)] by (simp add: rows_ok_def)
  have u: "\<And>i c. i < n \<Longrightarrow> c < j \<Longrightarrow> R ! i ! c = (if i = c then 1 else 0)"
    using assms(4) by (simp add: unit_cols_def)
  have pj: "R' ! j ! c = (if c = j then 1 else 0)" if "c \<le> j" for c
  proof (cases "c = j")
    case True
    then show ?thesis using p(2,3) assms(3) len by (simp add: p(5))
  next
    case False
    with that have c: "c < j" by simp
    then have "R ! p ! c = 0" using u[OF p(2) c] p(1) by simp
    then show ?thesis using c assms(3) p(2) len by (simp add: p(5))
  qed
  have "R' ! i ! c = (if i = c then 1 else 0)" if "i < n" "c < Suc j" for i c
  proof (cases "i = j")
    case True
    then show ?thesis using pj[of c] that by auto
  next
    case False
    let ?r = "if i = p then R ! j else R ! i"
    have cn: "c < n + n" using that assms(3) by simp
    have lr: "length ?r = n + n" using len that assms(3) by simp
    have e: "R' ! i ! c = ?r ! c - (?r ! j) * (R' ! j ! c)"
      using p(6)[OF that(1) False] cn lr len'[OF assms(3)] by simp
    show ?thesis
    proof (cases "c = j")
      case True
      then show ?thesis using e pj[of j] False by simp
    next
      case cj: False
      with that have c: "c < j" by simp
      have "?r ! c = (if i = c then 1 else 0)"
        using u[OF that(1) c] u[OF assms(3) c] c p(1) by auto
      then show ?thesis using e pj[of c] c by simp
    qed
  qed
  then show ?thesis by (simp add: unit_cols_def)
qed

lemma gj_loop_Some:
  assumes "gj_loop [j..<n] R = Some R'" "rows_ok n R" "unit_cols n j R" "j \<le> n"
  shows "rows_ok n R' \<and> unit_cols n n R' \<and> (\<forall>v w. vanishes n v w R' = vanishes n v w R)"
  using assms
proof (induction "n - j" arbitrary: j R)
  case 0
  then show ?case by simp
next
  case (Suc d)
  then have jn: "j < n" by simp
  then have upt: "[j..<n] = j # [Suc j..<n]" by (simp add: upt_conv_Cons)
  from Suc.prems(1) obtain R1 where R1: "gj_col j R = Some R1" "gj_loop [Suc j..<n] R1 = Some R'"
    by (auto simp: upt split: option.splits)
  have ok1: "rows_ok n R1" using gj_col_rows_ok[OF R1(1) Suc.prems(2) jn] .
  have u1: "unit_cols n (Suc j) R1" using gj_col_unit_cols[OF R1(1) Suc.prems(2) jn Suc.prems(3)] .
  have "d = n - Suc j" using Suc.hyps(2) by simp
  from Suc.hyps(1)[OF this R1(2) ok1 u1] jn
  have "rows_ok n R' \<and> unit_cols n n R' \<and> (\<forall>v w. vanishes n v w R' = vanishes n v w R1)"
    by simp
  then show ?case using gj_col_vanishes[OF R1(1) Suc.prems(2) jn] by simp
qed



subsection \<open>The augmented matrix\<close>

lemma augment_rows_ok:
  "wf_array A \<Longrightarrow> nrows A = n \<Longrightarrow> ncols A = n \<Longrightarrow> rows_ok n (augment n (rows A))"
  by (simp add: rows_ok_def augment_def wf_array_iff)

lemma augment_left:
  "wf_array A \<Longrightarrow> nrows A = n \<Longrightarrow> ncols A = n \<Longrightarrow> i < n \<Longrightarrow> c < n \<Longrightarrow>
   augment n (rows A) ! i ! c = entry A i c"
  by (simp add: augment_def wf_array_iff nth_append entry_def)

lemma augment_right:
  "wf_array A \<Longrightarrow> nrows A = n \<Longrightarrow> ncols A = n \<Longrightarrow> i < n \<Longrightarrow> k < n \<Longrightarrow>
   augment n (rows A) ! i ! (n + k) = (if k = i then 1 else 0)"
  by (simp add: augment_def wf_array_iff nth_append)

lemma phi_augment:
  assumes "wf_array A" "nrows A = n" "ncols A = n" "i < n"
  shows "phi n v w (augment n (rows A) ! i) = (\<Sum>c<n. entry A i c * v c) + w i"
proof -
  have "(\<Sum>c<n. augment n (rows A) ! i ! c * v c) = (\<Sum>c<n. entry A i c * v c)"
    by (rule sum.cong) (simp_all add: augment_left[OF assms])
  moreover have "(\<Sum>k<n. augment n (rows A) ! i ! (n + k) * w k) = (\<Sum>k<n. if k = i then w k else 0)"
    by (rule sum.cong) (simp_all add: augment_right[OF assms])
  ultimately show ?thesis using assms(4) by (simp add: phi_def)
qed

subsection \<open>The inverse\<close>

lemma gauss_jordan_char:
  assumes "gauss_jordan n (rows A) = Some B" "wf_array A" "nrows A = n" "ncols A = n"
  shows "length B = n" "\<And>i. i < n \<Longrightarrow> length (B ! i) = n"
    and "\<And>v w. (\<forall>i<n. v i + (\<Sum>k<n. B ! i ! k * w k) = 0)
            \<longleftrightarrow> (\<forall>i<n. (\<Sum>c<n. entry A i c * v c) + w i = 0)"
proof -
  from assms(1) obtain R where R: "gj_loop [0..<n] (augment n (rows A)) = Some R"
    and B: "B = map (drop n) R"
    by (auto simp: gauss_jordan_def)
  have u0: "unit_cols n 0 (augment n (rows A))" by (simp add: unit_cols_def)
  from gj_loop_Some[OF R augment_rows_ok[OF assms(2-4)] u0]
  have ok: "rows_ok n R" and u: "unit_cols n n R"
    and z: "\<And>v w. vanishes n v w R = vanishes n v w (augment n (rows A))"
    by auto
  show 1: "length B = n" using ok by (simp add: B rows_ok_def)
  show 2: "length (B ! i) = n" if "i < n" for i using ok that by (simp add: B rows_ok_def)
  have Bik: "B ! i ! k = R ! i ! (n + k)" if "i < n" "k < n" for i k
    using ok that by (simp add: B rows_ok_def)
  have phiR: "phi n v w (R ! i) = v i + (\<Sum>k<n. B ! i ! k * w k)" if "i < n" for i v w
  proof -
    have "(\<Sum>c<n. R ! i ! c * v c) = (\<Sum>c<n. if c = i then v c else 0)"
      by (rule sum.cong) (use u that in \<open>auto simp: unit_cols_def\<close>)
    moreover have "(\<Sum>k<n. R ! i ! (n + k) * w k) = (\<Sum>k<n. B ! i ! k * w k)"
      by (rule sum.cong) (simp_all add: Bik[OF that])
    ultimately show ?thesis using that by (simp add: phi_def)
  qed
  show "(\<forall>i<n. v i + (\<Sum>k<n. B ! i ! k * w k) = 0)
            \<longleftrightarrow> (\<forall>i<n. (\<Sum>c<n. entry A i c * v c) + w i = 0)" for v w
    using z[of v w] by (simp add: vanishes_def phiR phi_augment[OF assms(2-4)])
qed

lemma linalg_inv_Inr:
  assumes "linalg_inv A = Inr B" "wf_array A"
  shows "inverse_of A B"
proof -
  let ?n = "nrows A"
  from assms(1) have sq: "ncols A = ?n" by (auto simp: linalg_inv_def split: if_splits)
  from assms(1) sq obtain Bs where gj: "gauss_jordan ?n (rows A) = Some Bs"
    and B: "B = NDArray ?n ?n Bs"
    by (auto simp: linalg_inv_def split: option.splits)
  note ch = gauss_jordan_char[OF gj assms(2) refl sq]
  have wf: "wf_array B" using ch(1,2) by (simp add: B wf_array_iff)
  have e: "entry B i k = Bs ! i ! k" for i k by (simp add: B entry_def)
  have nB: "nrows B = ?n" "ncols B = ?n" by (simp_all add: B)
  have BA: "mm B A = eye ?n"
  proof (rule array_eqI)
    fix i c0 assume "i < nrows (mm B A)" "c0 < ncols (mm B A)"
    then have i: "i < ?n" and c0: "c0 < ?n" using sq by (simp_all add: nB)
    define v :: "nat \<Rightarrow> 'a" where "v c = (if c = c0 then - 1 else 0)" for c
    define w where "w k = entry A k c0" for k
    have "(\<Sum>c<?n. entry A j c * v c) + w j = 0" if "j < ?n" for j
    proof -
      have "(\<Sum>c<?n. entry A j c * v c) = (\<Sum>c<?n. if c = c0 then - entry A j c else 0)"
        by (rule sum.cong) (auto simp: v_def)
      then show ?thesis using c0 by (simp add: w_def)
    qed
    then have "\<forall>i<?n. v i + (\<Sum>k<?n. Bs ! i ! k * w k) = 0" using ch(3)[of v w] by simp
    then have "v i + (\<Sum>k<?n. Bs ! i ! k * w k) = 0" using i by simp
    then have "(\<Sum>k<?n. entry B i k * entry A k c0) = - v i" by (simp add: e w_def eq_neg_iff_add_eq_0 add.commute)
    then show "entry (mm B A) i c0 = entry (eye ?n) i c0"
      using i c0 sq by (simp add: nB v_def)
  qed (simp_all add: nB sq)
  have AB: "mm A B = eye ?n"
  proof (rule array_eqI)
    fix i k0 assume "i < nrows (mm A B)" "k0 < ncols (mm A B)"
    then have i: "i < ?n" and k0: "k0 < ?n" by (simp_all add: nB)
    define v where "v c = Bs ! c ! k0" for c
    define w :: "nat \<Rightarrow> 'a" where "w k = (if k = k0 then - 1 else 0)" for k
    have "v j + (\<Sum>k<?n. Bs ! j ! k * w k) = 0" if "j < ?n" for j
    proof -
      have "(\<Sum>k<?n. Bs ! j ! k * w k) = (\<Sum>k<?n. if k = k0 then - (Bs ! j ! k) else 0)"
        by (rule sum.cong) (auto simp: w_def)
      then show ?thesis using k0 by (simp add: v_def)
    qed
    then have "\<forall>i<?n. (\<Sum>c<?n. entry A i c * v c) + w i = 0" using ch(3)[of v w] by simp
    then have "(\<Sum>c<?n. entry A i c * v c) + w i = 0" using i by simp
    then have "(\<Sum>c<?n. entry A i c * entry B c k0) = - w i"
      by (simp add: e v_def eq_neg_iff_add_eq_0)
    then show "entry (mm A B) i k0 = entry (eye ?n) i k0"
      using i k0 sq by (simp add: nB w_def)
  qed (simp_all add: nB sq)
  show ?thesis using wf sq BA AB nB by (simp add: inverse_of_def)
qed





subsection \<open>The cell\<close>

lemma linalg_inv_shape:
  "linalg_inv A = Inr B \<Longrightarrow> nrows B = nrows A \<and> ncols B = nrows A"
  by (auto simp: linalg_inv_def split: if_splits option.splits)

lemma linalg_inv_error: "linalg_inv A = Inl e \<Longrightarrow> e = LinAlgError"
  by (auto simp: linalg_inv_def split: if_splits option.splits)

lemma theta_eq:
  "theta X y =
     (case linalg_inv (mm (T X) X) of
        Inl e \<Rightarrow> Inl LinAlgError
      | Inr Ainv \<Rightarrow> if nrows y = nrows X then Inr (mm Ainv (mm (T X) y)) else Inl ValueError)"
  by (auto simp: theta_def matmul_eq dest: linalg_inv_shape linalg_inv_error split: sum.splits)

lemma gram_eq: "matmul (T X) X = Inr (mm (T X) X)"
  by (simp add: matmul_eq)


subsection \<open>The normal equations\<close>



subsection \<open>Shape mismatch\<close>

text \<open>
  Claim C5, as amended. When \<open>y\<close> has not as many rows as \<open>X\<close>, the cell returns no
  parameter vector. It has no check of its own: the Gram matrix is formed and inverted
  first, so a singular Gram matrix ends the cell with LinAlgError, and only when the
  inversion has succeeded does \<open>np.matmul(X.T, y)\<close> raise the ValueError of the shape
  mismatch. Nothing is truncated or broadcast.
\<close>

theorem theta_shape_mismatch:
  assumes "nrows y \<noteq> nrows X"
  shows "\<exists>A. matmul (T X) X = Inr A \<and>
     theta X y = (case linalg_inv A of Inl e \<Rightarrow> Inl LinAlgError | Inr Ainv \<Rightarrow> Inl ValueError)"
  using assms by (simp add: gram_eq theta_eq split: sum.splits)

theorem theta_shape_mismatch_witness:
  "nrows (NDArray 3 1 [[0], [0], [0::rat]]) \<noteq> nrows (NDArray 2 2 [[1, 1], [2, 1::rat]]) \<and>
   theta (NDArray 2 2 [[1, 1], [2, 1::rat]]) (NDArray 3 1 [[0], [0], [0]]) = Inl ValueError"
proof -
  have i: "linalg_inv (NDArray 2 2 [[5, 3], [3, 2::rat]]) = Inr (NDArray 2 2 [[2, -3], [-3, 5]])"
    by code_simp
  have g: "matmul (T (NDArray 2 2 [[1, 1], [2, 1::rat]])) (NDArray 2 2 [[1, 1], [2, 1]])
      = Inr (NDArray 2 2 [[5, 3], [3, 2]])"
    by code_simp
  show ?thesis
    using theta_shape_mismatch[of "NDArray 3 1 [[0], [0], [0::rat]]" "NDArray 2 2 [[1, 1], [2, 1::rat]]"]
    by (simp add: g i)
qed

text \<open>
  The claim as stated fails: for \<open>X = [[1, 1]]\<close> and a \<open>y\<close> of two rows the Gram
  matrix \<open>[[1, 1], [1, 1]]\<close> is singular, and the error raised is that of the
  inversion, not the shape mismatch: numeric work came first.
\<close>

theorem theta_shape_mismatch_counterexample:
  "nrows (NDArray 2 1 [[0], [0::rat]]) \<noteq> nrows (NDArray 1 2 [[1, 1::rat]]) \<and>
   theta (NDArray 1 2 [[1, 1::rat]]) (NDArray 2 1 [[0], [0]]) = Inl LinAlgError"
  by code_simp

subsection \<open>Orthogonality of the residual\<close>

lemma theta_InrD:
  assumes "theta X y = Inr t"
  obtains Ainv where "linalg_inv (mm (T X) X) = Inr Ainv" "nrows y = nrows X"
    "t = mm Ainv (mm (T X) y)"
  using assms by (auto simp: theta_eq split: sum.splits if_splits)

lemma theta_solves:
  assumes "theta X y = Inr t"
  shows "wf_array t" "nrows t = ncols X" "ncols t = ncols y" "nrows y = nrows X"
    and "mm (mm (T X) X) t = mm (T X) y"
    and "\<exists>Ainv. inverse_of (mm (T X) X) Ainv"
proof -
  from theta_InrD[OF assms] obtain Ainv where
    inv: "linalg_inv (mm (T X) X) = Inr Ainv" and n: "nrows y = nrows X"
    and t: "t = mm Ainv (mm (T X) y)" by blast
  have io: "inverse_of (mm (T X) X) Ainv" by (rule linalg_inv_Inr[OF inv]) simp
  then have Ai: "nrows Ainv = ncols X" "ncols Ainv = ncols X"
    "mm (mm (T X) X) Ainv = eye (ncols X)"
    by (simp_all add: inverse_of_def)
  show "wf_array t" "nrows t = ncols X" "ncols t = ncols y" by (simp_all add: t Ai)
  show "nrows y = nrows X" by (rule n)
  have "mm (mm (T X) X) t = mm (mm (mm (T X) X) Ainv) (mm (T X) y)"
    unfolding t by (rule mm_assoc[symmetric]) (simp_all add: Ai)
  also have "\<dots> = mm (T X) y" using mm_eye_left[of "mm (T X) y"] by (simp add: Ai)
  finally show "mm (mm (T X) X) t = mm (T X) y" .
  show "\<exists>Ainv. inverse_of (mm (T X) X) Ainv" using io by blast
qed

lemma entry_residual [simp]:
  "i < nrows X \<Longrightarrow> j < ncols y \<Longrightarrow> entry (residual X t y) i j = entry (mm X t) i j - entry y i j"
  by (simp add: residual_def)

lemma residual_simps [simp]:
  "wf_array (residual X t y)" "nrows (residual X t y) = nrows X" "ncols (residual X t y) = ncols y"
  by (simp_all add: residual_def)





subsection \<open>Optimality\<close>

lemma zeros_simps [simp]:
  "wf_array (zeros n m)" "nrows (zeros n m) = n" "ncols (zeros n m) = m"
  by (simp_all add: zeros_def)

lemma entry_zeros [simp]: "i < n \<Longrightarrow> j < m \<Longrightarrow> entry (zeros n m) i j = 0"
  by (simp add: zeros_def)


lemma plus_array_simps [simp]:
  "wf_array (plus_array A B)" "nrows (plus_array A B) = nrows A" "ncols (plus_array A B) = ncols A"
  by (simp_all add: plus_array_def)

lemma entry_plus_array [simp]:
  "i < nrows A \<Longrightarrow> j < ncols A \<Longrightarrow> entry (plus_array A B) i j = entry A i j + entry B i j"
  by (simp add: plus_array_def)






subsection \<open>The design matrix\<close>

lemma design_matrix_eq:
  "design_matrix x = Inr (NDArray (length x) 2 (map (\<lambda>a. [a, 1]) x))"
proof -
  have "map2 (@) (map (\<lambda>a. [a]) x) (replicate (length x) [1]) = map (\<lambda>a. [a, 1]) x"
    by (induction x) simp_all
  then show ?thesis by (simp add: design_matrix_def concatenate_def expand_dims_def ones_def)
qed

lemma design_simps:
  "wf_array (NDArray (length x) 2 (map (\<lambda>a. [a, 1]) x))"
  "i < length x \<Longrightarrow> entry (NDArray (length x) 2 (map (\<lambda>a. [a, 1]) x)) i 0 = x ! i"
  "i < length x \<Longrightarrow> entry (NDArray (length x) 2 (map (\<lambda>a. [a, 1]) x)) i (Suc 0) = 1"
  by (simp_all add: wf_array_iff entry_def)

lemma sum_less_2: "(\<Sum>k<2. f k) = f 0 + f (Suc 0)"
  by (simp add: numeral_2_eq_2)

lemma design_predict:
  fixes x :: "'a::field list"
  assumes "nrows t = 2"
  shows "mm (NDArray (length x) 2 (map (\<lambda>a. [a, 1]) x)) t
     = tabulate (length x) (ncols t) (\<lambda>i j. x ! i * entry t 0 j + entry t 1 j)"
  by (rule array_eqI) (simp_all add: sum_less_2 design_simps)

text \<open>
  Claim C9. The design matrix has two columns: column 0 holds the inputs \<open>x\<close> and
  column 1, the last, is the constant one. Hence a fitted parameter array has two rows,
  and in the prediction \<open>X \<theta>\<close> row 0 of \<open>\<theta>\<close> multiplies the input (the slope) and row
  1 is added to it (the intercept).
\<close>

theorem design_matrix_bias_last:
  fixes x :: "'a::field list"
  shows "\<exists>X. design_matrix x = Inr X \<and> wf_array X \<and> nrows X = length x \<and> ncols X = 2 \<and>
     (\<forall>i<length x. entry X i 0 = x ! i \<and> entry X i 1 = 1) \<and>
     (\<forall>y t. theta X y = Inr t \<longrightarrow>
        nrows t = 2 \<and> ncols t = ncols y \<and>
        matmul X t = Inr (tabulate (length x) (ncols y) (\<lambda>i j. x ! i * entry t 0 j + entry t 1 j)))"
proof -
  let ?X = "NDArray (length x) 2 (map (\<lambda>a. [a, 1]) x)"
  have "nrows t = 2 \<and> ncols t = ncols y \<and>
        matmul ?X t = Inr (tabulate (length x) (ncols y) (\<lambda>i j. x ! i * entry t 0 j + entry t 1 j))"
    if "theta ?X y = Inr t" for y t
  proof -
    from theta_solves(2,3)[OF that] have t: "nrows t = 2" "ncols t = ncols y" by simp_all
    then show ?thesis using design_predict[OF t(1), where x = x] by (simp add: matmul_eq)
  qed
  then show ?thesis
    by (simp add: design_matrix_eq design_simps)
qed

theorem design_matrix_bias_last_witness:
  "design_matrix [0, 1, 2::rat] = Inr (NDArray 3 2 [[0, 1], [1, 1], [2, 1]]) \<and>
   theta (NDArray 3 2 [[0, 1], [1, 1], [2, 1::rat]]) (NDArray 3 1 [[5], [7], [9]])
     = Inr (NDArray 2 1 [[2], [5]]) \<and>
   matmul (NDArray 3 2 [[0, 1], [1, 1], [2, 1::rat]]) (NDArray 2 1 [[2], [5]])
     = Inr (NDArray 3 1 [[0 * 2 + 5], [1 * 2 + 5], [2 * 2 + 5]])"
proof -
  let ?X = "NDArray 3 2 [[0, 1], [1, 1], [2, 1::rat]]"
  let ?y = "NDArray 3 1 [[5], [7], [9::rat]]"
  let ?t = "NDArray 2 1 [[2], [5::rat]]"
  have d: "design_matrix [0, 1, 2::rat] = Inr ?X"
    by code_simp
  have th: "theta ?X ?y = Inr ?t"
    by code_simp
  have tab: "tabulate (length [0, 1, 2::rat]) (ncols ?y)
       (\<lambda>i j. [0, 1, 2::rat] ! i * entry ?t 0 j + entry ?t 1 j)
     = NDArray 3 1 [[0 * 2 + 5], [1 * 2 + 5], [2 * 2 + 5]]"
    by code_simp
  from design_matrix_bias_last[of "[0, 1, 2::rat]"] obtain X where
    X: "design_matrix [0, 1, 2::rat] = Inr X"
    and p: "\<forall>y t. theta X y = Inr t \<longrightarrow> nrows t = 2 \<and> ncols t = ncols y \<and>
        matmul X t = Inr (tabulate (length [0, 1, 2::rat]) (ncols y)
          (\<lambda>i j. [0, 1, 2::rat] ! i * entry t 0 j + entry t 1 j))"
    by blast
  from X d have "X = ?X" by simp
  with p th have "matmul ?X ?t = Inr (tabulate (length [0, 1, 2::rat]) (ncols ?y)
          (\<lambda>i j. [0, 1, 2::rat] ! i * entry ?t 0 j + entry ?t 1 j))"
    by blast
  then have "matmul ?X ?t = Inr (NDArray 3 1 [[0 * 2 + 5], [1 * 2 + 5], [2 * 2 + 5]])"
    unfolding tab .
  with d th show ?thesis by blast
qed

subsection \<open>Exact recovery\<close>






subsection \<open>Permutation of the rows\<close>


lemma permute_rows_simps [simp]:
  "nrows (permute_rows p A) = length p" "ncols (permute_rows p A) = ncols A"
  "i < length p \<Longrightarrow> entry (permute_rows p A) i j = entry A (p ! i) j"
  by (simp_all add: permute_rows_def entry_def)




end
